theory Spec2Isabelle
  imports Main
begin

section \<open>orf\_analyzer.py: the six-frame ORF finder\<close>

subsection \<open>Helpers\<close>

text \<open>
  \<^verbatim>\<open>_COMP = str.maketrans("ACGT", "TGCA")\<close>: the translation table sends A to T, C to G,
  G to C and T to A; \<^verbatim>\<open>str.translate\<close> leaves every character without an entry as it is.
\<close>

definition COMP :: "char \<Rightarrow> char" where
  "COMP c =
     (if c = CHR ''A'' then CHR ''T''
      else if c = CHR ''C'' then CHR ''G''
      else if c = CHR ''G'' then CHR ''C''
      else if c = CHR ''T'' then CHR ''A''
      else c)"

definition STOP_CODONS :: "string set" where
  "STOP_CODONS = {''TAA'', ''TAG'', ''TGA''}"

text \<open>\<^verbatim>\<open>seq.translate(_COMP)[::-1]\<close>\<close>

definition reverse_complement :: "string \<Rightarrow> string" where
  "reverse_complement seq = rev (map COMP seq)"

text \<open>
  The Python slice \<^verbatim>\<open>s[a:b]\<close> for indices \<open>0 \<le> a\<close>, \<open>0 \<le> b\<close>: it is clipped to the string
  and never raises.
\<close>

definition slice :: "string \<Rightarrow> nat \<Rightarrow> nat \<Rightarrow> string" where
  "slice s a b = take (b - a) (drop a s)"

subsection \<open>The candidate record\<close>

text \<open>
  The dictionary appended to \<^verbatim>\<open>orfs\<close>, with its keys \<^verbatim>\<open>strand\<close>, \<^verbatim>\<open>frame\<close>, \<^verbatim>\<open>start\<close>,
  \<^verbatim>\<open>end\<close> and \<^verbatim>\<open>length\<close> (the last two renamed: \<open>end\<close> is a keyword and \<open>length\<close> is
  the list function). Python integers are unbounded, so the numeric fields are \<open>int\<close>.
\<close>

record orf =
  strand :: string
  frame :: int
  start :: int
  end_orf :: int
  length_orf :: int

subsection \<open>The scan\<close>

text \<open>
  The inner loop \<^verbatim>\<open>for j in range(i, len(working_seq) - 2, 3)\<close>: the first \<open>j\<close> whose codon
  is a stop codon (the \<^verbatim>\<open>break\<close>), or \<open>None\<close> when the range is exhausted (the loop's
  \<^verbatim>\<open>else\<close> branch). The index is never negative, so \<open>j < len - 2\<close> over Python's integers
  is \<open>j + 2 < len\<close> over the naturals.
\<close>

function stop_scan :: "string \<Rightarrow> nat \<Rightarrow> nat option" where
  "stop_scan working_seq j =
     (if j + 2 < length working_seq then
        (if slice working_seq j (j + 3) \<in> STOP_CODONS then Some j
         else stop_scan working_seq (j + 3))
      else None)"
  by pat_completeness auto
termination
  by (relation "measure (\<lambda>(working_seq, j). length working_seq - j)") auto

declare stop_scan.simps [simp del]

text \<open>A stop that the inner loop finds lies at or after its first index and inside the string.\<close>

lemma stop_scan_bounds: "stop_scan ws i = Some j \<Longrightarrow> i \<le> j \<and> j + 3 \<le> length ws"
proof (induction ws i rule: stop_scan.induct)
  case (1 ws i)
  then show ?case
    by (subst (asm) (2) stop_scan.simps) (auto split: if_splits)
qed

text \<open>
  The body of \<^verbatim>\<open>if orf_len >= min_len\<close>: the coordinates on the forward strand and the
  dictionary that is appended. \<open>sd\<close> and \<open>fr\<close> are the loop variables \<^verbatim>\<open>strand\<close>
  and \<^verbatim>\<open>frame\<close>.
\<close>

definition candidate :: "string \<Rightarrow> nat \<Rightarrow> nat \<Rightarrow> nat \<Rightarrow> nat \<Rightarrow> orf" where
  "candidate sd fr seq_len i j =
     (let orf_len = int (j + 3) - int i;
          start_end =
            (if sd = ''+'' then (int i + 1, int j + 3)
             else (int seq_len - (int j + 3) + 1, int seq_len - int i))
      in \<lparr>strand = sd, frame = int fr + 1, start = fst start_end, end_orf = snd start_end,
          length_orf = orf_len\<rparr>)"

text \<open>
  The loop \<^verbatim>\<open>while i + 3 <= len(working_seq)\<close> of one strand and one frame, on the state
  \<open>(i, orfs)\<close>. When a stop is found the body sets \<^verbatim>\<open>i = j + 3\<close> and leaves the inner loop;
  the statement \<^verbatim>\<open>i += 3\<close> that ends the body of the \<^verbatim>\<open>while\<close> runs after it, so the next
  iteration starts at \<open>j + 3 + 3\<close>. When no stop is found the \<^verbatim>\<open>else\<close> of the inner loop
  leaves the \<^verbatim>\<open>while\<close>.
\<close>

function frame_scan :: "string \<Rightarrow> nat \<Rightarrow> string \<Rightarrow> nat \<Rightarrow> int \<Rightarrow> nat \<Rightarrow> orf list \<Rightarrow> orf list" where
  "frame_scan sd fr working_seq seq_len min_len i orfs =
     (if i + 3 \<le> length working_seq then
        (if slice working_seq i (i + 3) = ''ATG'' then
           (case stop_scan working_seq i of
              Some j \<Rightarrow>
                frame_scan sd fr working_seq seq_len min_len (j + 3 + 3)
                  (if int (j + 3) - int i \<ge> min_len
                   then orfs @ [candidate sd fr seq_len i j] else orfs)
            | None \<Rightarrow> orfs)
         else frame_scan sd fr working_seq seq_len min_len (i + 3) orfs)
      else orfs)"
  by pat_completeness auto
termination
proof (relation "measure (\<lambda>(sd, fr, working_seq, seq_len, min_len, i, orfs). length working_seq - i)",
    goal_cases)
  case (2 sd fr working_seq seq_len min_len i orfs j)
  then show ?case
    using stop_scan_bounds [of working_seq i j] by (simp, arith)
qed simp_all

declare frame_scan.simps [simp del]

text \<open>
  The two outer loops, \<^verbatim>\<open>for strand, working_seq in [("+", seq), ("-", rc_seq)]\<close> and
  \<^verbatim>\<open>for frame in range(3)\<close>, thread the list \<^verbatim>\<open>orfs\<close> through the six scans; each scan
  starts at \<^verbatim>\<open>i = frame\<close>.
\<close>

definition strand_scan :: "nat \<Rightarrow> int \<Rightarrow> orf list \<Rightarrow> string \<times> string \<Rightarrow> orf list" where
  "strand_scan seq_len min_len orfs sw =
     foldl (\<lambda>orfs fr. frame_scan (fst sw) fr (snd sw) seq_len min_len fr orfs) orfs [0, 1, 2]"

definition emitted :: "string \<Rightarrow> int \<Rightarrow> orf list" where
  "emitted seq min_len =
     (let seq_len = length seq;
          rc_seq = reverse_complement seq
      in foldl (strand_scan seq_len min_len) [] [(''+'', seq), (''-'', rc_seq)])"

text \<open>
  \<^verbatim>\<open>sorted(orfs, key=lambda x: -x["length"])\<close>: Python's \<^verbatim>\<open>sorted\<close> is a stable sort on
  the key, as is insertion sort by key.
\<close>

definition find_orfs :: "string \<Rightarrow> int \<Rightarrow> orf list" where
  "find_orfs seq min_len = sort_key (\<lambda>x. - length_orf x) (emitted seq min_len)"

subsection \<open>The scan path\<close>

text \<open>
  The path of the \<^verbatim>\<open>while\<close> loop without its output: the pairs \<open>(i, j)\<close> of a start index
  and the index of its stop codon at which the loop reaches the test
  \<^verbatim>\<open>if orf_len >= min_len\<close>, in the order in which it reaches them. It follows the loop
  branch by branch and does not mention \<^verbatim>\<open>min_len\<close>.
\<close>

function hits :: "string \<Rightarrow> nat \<Rightarrow> (nat \<times> nat) list" where
  "hits working_seq i =
     (if i + 3 \<le> length working_seq then
        (if slice working_seq i (i + 3) = ''ATG'' then
           (case stop_scan working_seq i of
              Some j \<Rightarrow> (i, j) # hits working_seq (j + 3 + 3)
            | None \<Rightarrow> [])
         else hits working_seq (i + 3))
      else [])"
  by pat_completeness auto
termination
proof (relation "measure (\<lambda>(working_seq, i). length working_seq - i)", goal_cases)
  case (2 working_seq i j)
  then show ?case
    using stop_scan_bounds [of working_seq i j] by (simp, arith)
qed simp_all

declare hits.simps [simp del]

text \<open>The test \<^verbatim>\<open>orf_len >= min_len\<close> on a pair of the path.\<close>

definition kept :: "int \<Rightarrow> nat \<times> nat \<Rightarrow> bool" where
  "kept min_len h = (min_len \<le> int (snd h + 3) - int (fst h))"

section \<open>Properties of the reverse complement\<close>

lemma COMP_COMP: "COMP (COMP c) = c"
  by (simp add: COMP_def)

text \<open>
  C6: \<^verbatim>\<open>reverse_complement\<close> is an involution on every string, also on strings with
  characters other than A, C, G and T.
\<close>

theorem reverse_complement_involution: "reverse_complement (reverse_complement S) = S"
  by (simp add: reverse_complement_def rev_map comp_def COMP_COMP)

text \<open>
  C7: the reverse complement of a string of length \<open>N\<close> has length \<open>N\<close>; its character at
  index \<open>i\<close> is the complement of the character of the input at index \<open>N - 1 - i\<close>; the
  complement swaps A with T and C with G and leaves every other character as it is. The
  function is total: it has a value on every string.
\<close>

theorem reverse_complement_contract:
  "length (reverse_complement S) = length S \<and>
   (\<forall>i < length S. reverse_complement S ! i = COMP (S ! (length S - 1 - i))) \<and>
   COMP CHR ''A'' = CHR ''T'' \<and> COMP CHR ''T'' = CHR ''A'' \<and>
   COMP CHR ''C'' = CHR ''G'' \<and> COMP CHR ''G'' = CHR ''C'' \<and>
   (\<forall>c. c \<notin> {CHR ''A'', CHR ''C'', CHR ''G'', CHR ''T''} \<longrightarrow> COMP c = c)"
  by (simp add: reverse_complement_def rev_nth COMP_def)

theorem reverse_complement_contract_witness:
  "length (reverse_complement ''ACGTN'') = 5 \<and>
   reverse_complement ''ACGTN'' ! 1 = CHR ''A'' \<and>
   COMP CHR ''N'' = CHR ''N''"
proof -
  have a: "(1::nat) < length ''ACGTN''" by simp
  have b: "CHR ''N'' \<notin> {CHR ''A'', CHR ''C'', CHR ''G'', CHR ''T''}" by simp
  from reverse_complement_contract [of "''ACGTN''"] a b
  have "length (reverse_complement ''ACGTN'') = length ''ACGTN''"
    and "reverse_complement ''ACGTN'' ! 1 = COMP (''ACGTN'' ! (length ''ACGTN'' - 1 - 1))"
    and "COMP CHR ''N'' = CHR ''N''"
    by blast+
  then show ?thesis by (simp add: COMP_def)
qed

section \<open>The scenarios\<close>

text \<open>
  C1, as the code has it: in \<^verbatim>\<open>"AAATTAATGCCCTAAGGG"\<close> the codon ATG starts at index 6 and
  the stop TAA at index 12 (both 0-based), which is forward frame 0; with
  \<^verbatim>\<open>min_len = 3\<close> the result is the single forward candidate with frame 1, start 7, end 15
  and length 9.
\<close>

theorem find_orfs_scenario_18nt:
  "slice ''AAATTAATGCCCTAAGGG'' 6 9 = ''ATG'' \<and>
   slice ''AAATTAATGCCCTAAGGG'' 12 15 = ''TAA'' \<and>
   find_orfs ''AAATTAATGCCCTAAGGG'' 3 =
     [\<lparr>strand = ''+'', frame = 1, start = 7, end_orf = 15, length_orf = 9\<rparr>]"
  by code_simp

text \<open>
  C1, as the claim states it: no candidate with frame 3, start 9, end 17 and length 9 is
  returned for that input.
\<close>

theorem find_orfs_scenario_18nt_counterexample:
  "\<lparr>strand = ''+'', frame = 3, start = 9, end_orf = 17, length_orf = 9\<rparr>
     \<notin> set (find_orfs ''AAATTAATGCCCTAAGGG'' 3)"
  by code_simp

text \<open>
  C9: \<^verbatim>\<open>find_orfs("ATGAAATAA", 1)\<close> returns exactly one candidate: strand +, frame 1,
  start 1, end 9, length 9.
\<close>

theorem find_orfs_scenario_9nt:
  "find_orfs ''ATGAAATAA'' 1 =
     [\<lparr>strand = ''+'', frame = 1, start = 1, end_orf = 9, length_orf = 9\<rparr>]"
  by code_simp

text \<open>
  C2, evaluated: in \<^verbatim>\<open>"ATGTAAATGTAA"\<close> the start at index 0 finds its stop at index 3, and
  an ATG with its own stop begins at index 6, the codon right after that stop. The scan
  returns the first span only: after \<^verbatim>\<open>i = j + 3\<close> the loop body still runs \<^verbatim>\<open>i += 3\<close>, so
  the codon at index 6 is never examined.
\<close>

theorem find_orfs_skips_codon_after_stop:
  "slice ''ATGTAAATGTAA'' 0 3 = ''ATG'' \<and> stop_scan ''ATGTAAATGTAA'' 0 = Some 3 \<and>
   slice ''ATGTAAATGTAA'' 6 9 = ''ATG'' \<and> stop_scan ''ATGTAAATGTAA'' 6 = Some 9 \<and>
   hits ''ATGTAAATGTAA'' 0 = [(0, 3)] \<and>
   find_orfs ''ATGTAAATGTAA'' 1 =
     [\<lparr>strand = ''+'', frame = 1, start = 1, end_orf = 6, length_orf = 6\<rparr>]"
  by code_simp

section \<open>The loops and the scan path\<close>

lemma frame_scan_hits:
  "frame_scan sd fr ws n L i orfs =
     orfs @ map (\<lambda>h. candidate sd fr n (fst h) (snd h)) (filter (kept L) (hits ws i))"
proof (induction sd fr ws n L i orfs rule: frame_scan.induct)
  case (1 sd fr ws n L i orfs)
  show ?case
  proof (cases "i + 3 \<le> length ws")
    case False
    then show ?thesis by (simp add: frame_scan.simps [of _ _ _ _ _ i] hits.simps [of _ i])
  next
    case in_range: True
    show ?thesis
    proof (cases "slice ws i (i + 3) = ''ATG''")
      case False
      with in_range "1.IH"(2) show ?thesis
        by (simp add: frame_scan.simps [of _ _ _ _ _ i] hits.simps [of _ i])
    next
      case atg: True
      show ?thesis
      proof (cases "stop_scan ws i")
        case None
        with in_range atg show ?thesis
          by (simp add: frame_scan.simps [of _ _ _ _ _ i] hits.simps [of _ i])
      next
        case (Some j)
        with in_range atg "1.IH"(1) [OF in_range atg Some] show ?thesis
          by (simp add: frame_scan.simps [of _ _ _ _ _ i] hits.simps [of _ i] kept_def)
      qed
    qed
  qed
qed

lemma stop_scan_first:
  "stop_scan ws i = Some j \<Longrightarrow>
     slice ws j (j + 3) \<in> STOP_CODONS \<and> (\<exists>k. j = i + 3 * k) \<and>
     (\<forall>k. i + 3 * k < j \<longrightarrow> slice ws (i + 3 * k) (i + 3 * k + 3) \<notin> STOP_CODONS)"
proof (induction ws i rule: stop_scan.induct)
  case (1 ws i)
  show ?case
  proof (cases "slice ws i (i + 3) \<in> STOP_CODONS")
    case True
    with "1.prems" have "j = i"
      by (subst (asm) stop_scan.simps) (simp split: if_splits)
    with True show ?thesis by simp
  next
    case False
    with "1.prems" have r: "i + 2 < length ws" and s: "stop_scan ws (i + 3) = Some j"
      by (subst (asm) stop_scan.simps, simp split: if_splits)+
    from "1.IH" [OF r False s] obtain k where
      st: "slice ws j (j + 3) \<in> STOP_CODONS" and k: "j = i + 3 + 3 * k" and
      fs: "\<forall>k. i + 3 + 3 * k < j \<longrightarrow> slice ws (i + 3 + 3 * k) (i + 3 + 3 * k + 3) \<notin> STOP_CODONS"
      by blast
    have "slice ws (i + 3 * m) (i + 3 * m + 3) \<notin> STOP_CODONS" if "i + 3 * m < j" for m
    proof (cases m)
      case 0
      with False show ?thesis by simp
    next
      case (Suc m')
      with that fs [rule_format, of m'] show ?thesis by (simp add: algebra_simps)
    qed
    moreover from k have "j = i + 3 * Suc k" by simp
    ultimately show ?thesis using st by blast
  qed
qed

lemma stop_scan_None:
  "stop_scan ws i = None \<longleftrightarrow>
     (\<forall>k. i + 3 * k + 3 \<le> length ws \<longrightarrow> slice ws (i + 3 * k) (i + 3 * k + 3) \<notin> STOP_CODONS)"
proof (induction ws i rule: stop_scan.induct)
  case (1 ws i)
  show ?case
  proof (cases "i + 2 < length ws")
    case False
    then show ?thesis by (subst stop_scan.simps) auto
  next
    case r: True
    show ?thesis
    proof (cases "slice ws i (i + 3) \<in> STOP_CODONS")
      case True
      with r have "stop_scan ws i \<noteq> None" by (subst stop_scan.simps) simp
      moreover from r True have "\<not> (\<forall>k. i + 3 * k + 3 \<le> length ws \<longrightarrow> slice ws (i + 3 * k) (i + 3 * k + 3) \<notin> STOP_CODONS)"
        by (auto intro!: exI [of _ 0])
      ultimately show ?thesis by blast
    next
      case False
      with r have e: "stop_scan ws i = stop_scan ws (i + 3)" by (subst stop_scan.simps) simp
      have "(\<forall>k. i + 3 * k + 3 \<le> length ws \<longrightarrow> slice ws (i + 3 * k) (i + 3 * k + 3) \<notin> STOP_CODONS)
        \<longleftrightarrow> (\<forall>k. i + 3 + 3 * k + 3 \<le> length ws \<longrightarrow> slice ws (i + 3 + 3 * k) (i + 3 + 3 * k + 3) \<notin> STOP_CODONS)"
        (is "?L \<longleftrightarrow> ?R")
      proof
        assume l: ?L
        show ?R
        proof (intro allI impI)
          fix k assume "i + 3 + 3 * k + 3 \<le> length ws"
          with l [rule_format, of "Suc k"] show "slice ws (i + 3 + 3 * k) (i + 3 + 3 * k + 3) \<notin> STOP_CODONS"
            by (simp add: algebra_simps)
        qed
      next
        assume rr: ?R
        show ?L
        proof (intro allI impI)
          fix k assume b: "i + 3 * k + 3 \<le> length ws"
          show "slice ws (i + 3 * k) (i + 3 * k + 3) \<notin> STOP_CODONS"
          proof (cases k)
            case 0
            with False show ?thesis by simp
          next
            case (Suc k')
            with b rr [rule_format, of k'] show ?thesis by (simp add: algebra_simps)
          qed
        qed
      qed
      with e "1.IH" [OF r False] show ?thesis by simp
    qed
  qed
qed

lemma hits_mem:
  "(a, b) \<in> set (hits ws i) \<Longrightarrow>
     (\<exists>k. a = i + 3 * k) \<and> a + 3 \<le> length ws \<and> slice ws a (a + 3) = ''ATG'' \<and>
     stop_scan ws a = Some b"
proof (induction ws i rule: hits.induct)
  case (1 ws i)
  show ?case
  proof (cases "i + 3 \<le> length ws")
    case False
    with "1.prems" show ?thesis by (simp add: hits.simps [of _ i])
  next
    case in_range: True
    show ?thesis
    proof (cases "slice ws i (i + 3) = ''ATG''")
      case False
      with in_range "1.prems" have "(a, b) \<in> set (hits ws (i + 3))"
        by (simp add: hits.simps [of _ i])
      from "1.IH"(2) [OF in_range False this] obtain k where
        "a = i + 3 + 3 * k" and r: "a + 3 \<le> length ws" "slice ws a (a + 3) = ''ATG''"
          "stop_scan ws a = Some b"
        by blast
      then have "a = i + 3 * Suc k" by simp
      with r show ?thesis by blast
    next
      case atg: True
      show ?thesis
      proof (cases "stop_scan ws i")
        case None
        with in_range atg "1.prems" show ?thesis by (simp add: hits.simps [of _ i])
      next
        case (Some j)
        with in_range atg "1.prems" consider "(a, b) = (i, j)" | "(a, b) \<in> set (hits ws (j + 3 + 3))"
          by (auto simp add: hits.simps [of _ i])
        then show ?thesis
        proof cases
          case 1
          with in_range atg Some have "a = i + 3 * 0" "a + 3 \<le> length ws"
            "slice ws a (a + 3) = ''ATG''" "stop_scan ws a = Some b"
            by simp_all
          then show ?thesis by blast
        next
          case 2
          from "1.IH"(1) [OF in_range atg Some 2] obtain k where
            a: "a = j + 3 + 3 + 3 * k" and r: "a + 3 \<le> length ws" "slice ws a (a + 3) = ''ATG''"
              "stop_scan ws a = Some b"
            by blast
          from stop_scan_first [OF Some] obtain m where "j = i + 3 * m" by blast
          with a have "a = i + 3 * (m + 2 + k)" by simp
          with r show ?thesis by blast
        qed
      qed
    qed
  qed
qed

lemma hits_ge: "(a, b) \<in> set (hits ws i) \<Longrightarrow> i \<le> a"
  using hits_mem [of a b ws i] by auto

lemma hits_sorted: "sorted_wrt (\<lambda>h h'. snd h + 3 < fst h') (hits ws i)"
proof (induction ws i rule: hits.induct)
  case (1 ws i)
  show ?case
  proof (cases "i + 3 \<le> length ws \<and> slice ws i (i + 3) = ''ATG''")
    case False
    with "1.IH"(2) show ?thesis by (auto simp add: hits.simps [of _ i])
  next
    case t: True
    show ?thesis
    proof (cases "stop_scan ws i")
      case None
      with t show ?thesis by (simp add: hits.simps [of _ i])
    next
      case (Some j)
      have "j + 3 < fst h" if "h \<in> set (hits ws (j + 3 + 3))" for h
        using hits_ge [of "fst h" "snd h" ws "j + 3 + 3"] that by simp
      with t Some "1.IH"(1) [OF _ _ Some] show ?thesis
        by (simp add: hits.simps [of _ i])
    qed
  qed
qed

lemma emitted_frames:
  "emitted S L =
     frame_scan ''+'' 0 S (length S) L 0 [] @
     frame_scan ''+'' 1 S (length S) L 1 [] @
     frame_scan ''+'' 2 S (length S) L 2 [] @
     frame_scan ''-'' 0 (reverse_complement S) (length S) L 0 [] @
     frame_scan ''-'' 1 (reverse_complement S) (length S) L 1 [] @
     frame_scan ''-'' 2 (reverse_complement S) (length S) L 2 []"
  by (simp add: emitted_def strand_scan_def Let_def frame_scan_hits)

lemma candidate_simps:
  "strand (candidate sd fr n i j) = sd"
  "frame (candidate sd fr n i j) = int fr + 1"
  "length_orf (candidate sd fr n i j) = int (j + 3) - int i"
  "start (candidate ''+'' fr n i j) = int i + 1"
  "end_orf (candidate ''+'' fr n i j) = int j + 3"
  "sd \<noteq> ''+'' \<Longrightarrow> start (candidate sd fr n i j) = int n - (int j + 3) + 1"
  "sd \<noteq> ''+'' \<Longrightarrow> end_orf (candidate sd fr n i j) = int n - int i"
  by (simp_all add: candidate_def Let_def)

lemma emitted_cases:
  assumes "c \<in> set (emitted S L)"
  obtains sd ws fr i j where
    "(sd = ''+'' \<and> ws = S) \<or> (sd = ''-'' \<and> ws = reverse_complement S)"
    "fr < 3" "(i, j) \<in> set (hits ws fr)" "kept L (i, j)"
    "c = candidate sd fr (length S) i j"
proof -
  from assms have
    "c \<in> set (frame_scan ''+'' 0 S (length S) L 0 []) \<or>
     c \<in> set (frame_scan ''+'' 1 S (length S) L 1 []) \<or>
     c \<in> set (frame_scan ''+'' 2 S (length S) L 2 []) \<or>
     c \<in> set (frame_scan ''-'' 0 (reverse_complement S) (length S) L 0 []) \<or>
     c \<in> set (frame_scan ''-'' 1 (reverse_complement S) (length S) L 1 []) \<or>
     c \<in> set (frame_scan ''-'' 2 (reverse_complement S) (length S) L 2 [])"
    unfolding emitted_frames by simp
  then have "\<exists>sd ws fr.
      ((sd = ''+'' \<and> ws = S) \<or> (sd = ''-'' \<and> ws = reverse_complement S)) \<and>
      fr < 3 \<and> c \<in> set (frame_scan sd fr ws (length S) L fr [])"
  proof (elim disjE)
    assume "c \<in> set (frame_scan ''+'' 0 S (length S) L 0 [])"
    then show ?thesis by (intro exI [of _ "''+''"] exI [of _ S] exI [of _ 0]) simp
  next
    assume "c \<in> set (frame_scan ''+'' 1 S (length S) L 1 [])"
    then show ?thesis by (intro exI [of _ "''+''"] exI [of _ S] exI [of _ 1]) simp
  next
    assume "c \<in> set (frame_scan ''+'' 2 S (length S) L 2 [])"
    then show ?thesis by (intro exI [of _ "''+''"] exI [of _ S] exI [of _ 2]) simp
  next
    assume "c \<in> set (frame_scan ''-'' 0 (reverse_complement S) (length S) L 0 [])"
    then show ?thesis
      by (intro exI [of _ "''-''"] exI [of _ "reverse_complement S"] exI [of _ 0]) simp
  next
    assume "c \<in> set (frame_scan ''-'' 1 (reverse_complement S) (length S) L 1 [])"
    then show ?thesis
      by (intro exI [of _ "''-''"] exI [of _ "reverse_complement S"] exI [of _ 1]) simp
  next
    assume "c \<in> set (frame_scan ''-'' 2 (reverse_complement S) (length S) L 2 [])"
    then show ?thesis
      by (intro exI [of _ "''-''"] exI [of _ "reverse_complement S"] exI [of _ 2]) simp
  qed
  then obtain sd ws fr where
    sw: "(sd = ''+'' \<and> ws = S) \<or> (sd = ''-'' \<and> ws = reverse_complement S)" and
    fr: "fr < 3" and c: "c \<in> set (frame_scan sd fr ws (length S) L fr [])"
    by blast
  from c obtain h where "h \<in> set (hits ws fr)" "kept L h"
    "c = candidate sd fr (length S) (fst h) (snd h)"
    by (auto simp add: frame_scan_hits)
  with sw fr that [of sd ws fr "fst h" "snd h"] show thesis by simp
qed

lemma length_reverse_complement: "length (reverse_complement S) = length S"
  by (simp add: reverse_complement_def)

lemma find_orfs_set: "set (find_orfs S L) = set (emitted S L)"
  by (simp add: find_orfs_def)

lemma frame_scan_strand_frame:
  "map strand (frame_scan sd fr ws n L i []) = replicate (length (frame_scan sd fr ws n L i [])) sd"
  "map frame (frame_scan sd fr ws n L i []) =
     replicate (length (frame_scan sd fr ws n L i [])) (int fr + 1)"
  by (simp_all add: frame_scan_hits comp_def candidate_simps map_replicate_const)

lemma frame_scan_forward_order:
  "sorted_wrt (\<lambda>a b. end_orf a < start b) (frame_scan ''+'' fr ws n L i [])"
proof -
  have "sorted_wrt (\<lambda>h h'. snd h + 3 < fst h') (filter (kept L) (hits ws i))"
    by (rule sorted_wrt_filter) (rule hits_sorted)
  then show ?thesis
    by (simp add: frame_scan_hits sorted_wrt_map candidate_simps)
        (erule sorted_wrt_mono_rel [rotated], simp)
qed

lemma frame_scan_reverse_order:
  "sorted_wrt (\<lambda>a b. end_orf b < start a) (frame_scan ''-'' fr ws n L i [])"
proof -
  have "sorted_wrt (\<lambda>h h'. snd h + 3 < fst h') (filter (kept L) (hits ws i))"
    by (rule sorted_wrt_filter) (rule hits_sorted)
  then show ?thesis
    by (simp add: frame_scan_hits sorted_wrt_map candidate_simps)
        (erule sorted_wrt_mono_rel [rotated], simp)
qed

lemma slice_reverse_complement:
  assumes "a \<le> b" "b \<le> length S"
  shows "slice (reverse_complement S) a b =
         reverse_complement (slice S (length S - b) (length S - a))"
proof -
  from assms have e: "length S - a - (length S - b) = b - a" by arith
  have "slice (reverse_complement S) a b = take (b - a) (drop a (rev (map COMP S)))"
    by (simp only: slice_def reverse_complement_def)
  also have "\<dots> = rev (map COMP (take (b - a) (drop (length S - b) S)))"
    using assms by (simp add: drop_rev take_rev drop_take take_map drop_map rev_map e)
  also have "take (b - a) (drop (length S - b) S) = slice S (length S - b) (length S - a)"
    by (simp only: slice_def e)
  finally show ?thesis
    by (simp only: reverse_complement_def)
qed

lemma frame_scan_raise_min_len:
  assumes "L1 \<le> L2"
  shows "filter (\<lambda>c. \<not> length_orf c < L2) (frame_scan sd fr ws n L1 i []) =
         frame_scan sd fr ws n L2 i []"
proof -
  from assms have "(kept L1 h \<and> \<not> int (snd h + 3) - int (fst h) < L2) = kept L2 h" for h
    by (auto simp add: kept_def)
  then show ?thesis
    by (simp add: frame_scan_hits filter_map comp_def candidate_simps)
qed

section \<open>Properties of the result\<close>

text \<open>
  C3: every candidate that \<^verbatim>\<open>find_orfs(S, L)\<close> returns has a length that is a multiple
  of 3, is at least \<open>L\<close> and is positive; its coordinates satisfy
  \<open>1 \<le> start \<le> end \<le> len(S)\<close>, and \<open>length = end - start + 1\<close>.
\<close>

theorem find_orfs_candidate_invariant:
  assumes "c \<in> set (find_orfs S L)"
  shows "length_orf c mod 3 = 0 \<and> L \<le> length_orf c \<and>
         1 \<le> start c \<and> start c \<le> end_orf c \<and> end_orf c \<le> int (length S) \<and>
         length_orf c = end_orf c - start c + 1 \<and> 0 < length_orf c"
proof -
  from assms have "c \<in> set (emitted S L)" by (simp add: find_orfs_set)
  then obtain sd ws fr i j where
    sw: "(sd = ''+'' \<and> ws = S) \<or> (sd = ''-'' \<and> ws = reverse_complement S)" and
    h: "(i, j) \<in> set (hits ws fr)" and k: "kept L (i, j)" and
    c: "c = candidate sd fr (length S) i j"
    by (rule emitted_cases)
  from sw have n: "length ws = length S"
    by (auto simp add: length_reverse_complement)
  from hits_mem [OF h] have s: "stop_scan ws i = Some j" by simp
  from stop_scan_bounds [OF s] n have b: "i \<le> j" "j + 3 \<le> length S" by simp_all
  from stop_scan_first [OF s] obtain m where m: "j = i + 3 * m" by blast
  have len: "length_orf c = int (j + 3) - int i"
    by (simp add: c candidate_simps)
  from m have "length_orf c = 3 * (int m + 1)" by (simp add: len)
  then have "length_orf c mod 3 = 0" by simp
  moreover from k have "L \<le> length_orf c" by (simp add: kept_def len)
  moreover from b have "0 < length_orf c" by (simp add: len)
  moreover have "1 \<le> start c \<and> start c \<le> end_orf c \<and> end_orf c \<le> int (length S) \<and>
      length_orf c = end_orf c - start c + 1"
    using sw
  proof
    assume "sd = ''+'' \<and> ws = S"
    with b show ?thesis by (simp add: c candidate_simps)
  next
    assume "sd = ''-'' \<and> ws = reverse_complement S"
    with b show ?thesis by (simp add: c candidate_simps)
  qed
  ultimately show ?thesis by blast
qed

theorem find_orfs_candidate_invariant_witness:
  "\<lparr>strand = ''+'', frame = 1, start = 1, end_orf = 9, length_orf = 9\<rparr>
     \<in> set (find_orfs ''ATGAAATAA'' 1) \<and>
   (9::int) mod 3 = 0 \<and> (1::int) \<le> 9 \<and> (9::int) \<le> int (length ''ATGAAATAA'') \<and>
   (9::int) = 9 - 1 + 1"
proof -
  have m: "\<lparr>strand = ''+'', frame = 1, start = 1, end_orf = 9, length_orf = 9\<rparr>
      \<in> set (find_orfs ''ATGAAATAA'' 1)"
    by code_simp
  from find_orfs_candidate_invariant [OF m] m show ?thesis by simp
qed

text \<open>
  C4: the result is sorted by length, longest first, and the sort is stable over the order
  of emission: the candidates of one length appear in the result in the order in which the
  loops appended them. That order is the forward strand's frames 1, 2, 3 and then the
  reverse strand's frames 1, 2, 3; every candidate of a scan carries the strand and the
  1-based frame of the scan; and inside a scan the candidates follow the working sequence
  from left to right without overlap (rising forward coordinates on the forward strand,
  falling ones on the reverse strand).
\<close>

theorem find_orfs_sorted_stable:
  "sorted_wrt (\<lambda>a b. length_orf a \<ge> length_orf b) (find_orfs S L) \<and>
   filter (\<lambda>c. length_orf c = k) (find_orfs S L) = filter (\<lambda>c. length_orf c = k) (emitted S L) \<and>
   emitted S L =
     frame_scan ''+'' 0 S (length S) L 0 [] @
     frame_scan ''+'' 1 S (length S) L 1 [] @
     frame_scan ''+'' 2 S (length S) L 2 [] @
     frame_scan ''-'' 0 (reverse_complement S) (length S) L 0 [] @
     frame_scan ''-'' 1 (reverse_complement S) (length S) L 1 [] @
     frame_scan ''-'' 2 (reverse_complement S) (length S) L 2 [] \<and>
   map strand (frame_scan sd fr ws n L fr []) =
     replicate (length (frame_scan sd fr ws n L fr [])) sd \<and>
   map frame (frame_scan sd fr ws n L fr []) =
     replicate (length (frame_scan sd fr ws n L fr [])) (int fr + 1) \<and>
   sorted_wrt (\<lambda>a b. end_orf a < start b) (frame_scan ''+'' fr ws n L fr []) \<and>
   sorted_wrt (\<lambda>a b. end_orf b < start a) (frame_scan ''-'' fr ws n L fr [])"
proof -
  have "sorted (map (\<lambda>x. - length_orf x) (find_orfs S L))"
    by (simp add: find_orfs_def)
  then have "sorted_wrt (\<lambda>a b. length_orf a \<ge> length_orf b) (find_orfs S L)"
    by (simp add: sorted_map)
  moreover have "filter (\<lambda>c. length_orf c = k) (find_orfs S L) =
      filter (\<lambda>c. length_orf c = k) (emitted S L)"
  proof -
    have e: "(\<lambda>c. length_orf c = k) = (\<lambda>c. - length_orf c = - k)" by auto
    show ?thesis unfolding e find_orfs_def by (rule sort_key_stable)
  qed
  ultimately show ?thesis
    using emitted_frames [of S L] frame_scan_strand_frame [of sd fr ws n L fr]
      frame_scan_forward_order [of fr ws n L fr] frame_scan_reverse_order [of fr ws n L fr]
    by blast
qed

text \<open>
  C5: a candidate on the reverse strand comes from a pair \<open>(i, j)\<close> of the scan path of the
  reverse complement, with ATG at \<open>i\<close> and the first in-frame stop at \<open>j\<close>, and reports
  \<open>end = N - i\<close> and \<open>start = N - (j + 3) + 1\<close>. This is the reflection \<open>p \<mapsto> N - p + 1\<close>
  of 1-based positions: each position \<open>p\<close> of the span on the reverse complement is sent
  into \<open>[start, end]\<close>, the character there is the complement of the forward character at
  \<open>N - p + 1\<close>, and the span is the reverse complement of the forward slice
  \<^verbatim>\<open>S[start-1:end]\<close>.
\<close>

theorem reverse_hit_coordinates:
  assumes "c \<in> set (find_orfs S L)" and "strand c = ''-''"
  shows "\<exists>i j. (i, j) \<in> set (hits (reverse_complement S) (nat (frame c - 1))) \<and>
           slice (reverse_complement S) i (i + 3) = ''ATG'' \<and>
           stop_scan (reverse_complement S) i = Some j \<and>
           end_orf c = int (length S) - int i \<and>
           start c = int (length S) - (int j + 3) + 1 \<and>
           (\<forall>p. i + 1 \<le> p \<and> p \<le> j + 3 \<longrightarrow>
              start c \<le> int (length S) - int p + 1 \<and> int (length S) - int p + 1 \<le> end_orf c \<and>
              reverse_complement S ! (p - 1) = COMP (S ! (length S - p + 1 - 1))) \<and>
           slice (reverse_complement S) i (j + 3) =
             reverse_complement (slice S (nat (start c - 1)) (nat (end_orf c)))"
proof -
  from assms(1) have "c \<in> set (emitted S L)" by (simp add: find_orfs_set)
  then obtain sd ws fr i j where
    sw: "(sd = ''+'' \<and> ws = S) \<or> (sd = ''-'' \<and> ws = reverse_complement S)" and
    h: "(i, j) \<in> set (hits ws fr)" and
    c: "c = candidate sd fr (length S) i j"
    by (rule emitted_cases)
  from assms(2) c have "sd = ''-''" by (simp add: candidate_simps)
  with sw have sd: "sd = ''-''" and ws: "ws = reverse_complement S" by auto
  have fr: "nat (frame c - 1) = fr" by (simp add: c candidate_simps)
  from hits_mem [OF h] have atg: "slice ws i (i + 3) = ''ATG''" and s: "stop_scan ws i = Some j"
    by simp_all
  from stop_scan_bounds [OF s] have b: "i \<le> j" "j + 3 \<le> length S"
    by (simp_all add: ws length_reverse_complement)
  have e: "end_orf c = int (length S) - int i" and st: "start c = int (length S) - (int j + 3) + 1"
    by (simp_all add: c sd candidate_simps)
  have refl: "start c \<le> int (length S) - int p + 1 \<and> int (length S) - int p + 1 \<le> end_orf c \<and>
      reverse_complement S ! (p - 1) = COMP (S ! (length S - p + 1 - 1))"
    if "i + 1 \<le> p \<and> p \<le> j + 3" for p
  proof -
    from that b have "p - 1 < length S" by arith
    then have "reverse_complement S ! (p - 1) = COMP (S ! (length S - Suc (p - 1)))"
      by (simp add: reverse_complement_def rev_nth)
    moreover from that have "length S - Suc (p - 1) = length S - p + 1 - 1" by arith
    ultimately show ?thesis using that by (simp add: e st)
  qed
  from b have n: "nat (start c - 1) = length S - (j + 3)" "nat (end_orf c) = length S - i"
    by (simp_all add: e st)
  from b have "slice (reverse_complement S) i (j + 3) =
      reverse_complement (slice S (length S - (j + 3)) (length S - i))"
    by (intro slice_reverse_complement) simp_all
  with n have sl: "slice (reverse_complement S) i (j + 3) =
      reverse_complement (slice S (nat (start c - 1)) (nat (end_orf c)))"
    by simp
  from h atg s e st refl sl show ?thesis
    unfolding ws fr by blast
qed

theorem reverse_hit_coordinates_witness:
  "\<lparr>strand = ''-'', frame = 1, start = 1, end_orf = 9, length_orf = 9\<rparr>
     \<in> set (find_orfs ''TTATTTCAT'' 1) \<and>
   (\<exists>i j. (i, j) \<in> set (hits (reverse_complement ''TTATTTCAT'') 0) \<and>
      stop_scan (reverse_complement ''TTATTTCAT'') i = Some j \<and>
      (9::int) = int (length ''TTATTTCAT'') - int i \<and>
      (1::int) = int (length ''TTATTTCAT'') - (int j + 3) + 1)"
proof -
  let ?c = "\<lparr>strand = ''-'', frame = 1, start = 1, end_orf = 9, length_orf = 9\<rparr>"
  have m: "?c \<in> set (find_orfs ''TTATTTCAT'' 1)"
    by code_simp
  have s: "strand ?c = ''-''" by simp
  from reverse_hit_coordinates [OF m s] obtain i j where
    "(i, j) \<in> set (hits (reverse_complement ''TTATTTCAT'') (nat (frame ?c - 1)))"
    "stop_scan (reverse_complement ''TTATTTCAT'') i = Some j"
    "end_orf ?c = int (length ''TTATTTCAT'') - int i"
    "start ?c = int (length ''TTATTTCAT'') - (int j + 3) + 1"
    by blast
  then have "(i, j) \<in> set (hits (reverse_complement ''TTATTTCAT'') 0) \<and>
      stop_scan (reverse_complement ''TTATTTCAT'') i = Some j \<and>
      (9::int) = int (length ''TTATTTCAT'') - int i \<and>
      (1::int) = int (length ''TTATTTCAT'') - (int j + 3) + 1"
    by simp
  with m show ?thesis by blast
qed

text \<open>
  C8: when the loop stands at a start codon and no in-frame stop codon follows before the
  end of the sequence, the scan of that strand and frame ends there and appends nothing
  more; and \<^verbatim>\<open>find_orfs("ATGAAA", 1)\<close> is the empty list.
\<close>

theorem open_orf_abandons_frame:
  assumes "i + 3 \<le> length ws" and "slice ws i (i + 3) = ''ATG''"
    and "\<forall>k. i + 3 * k + 3 \<le> length ws \<longrightarrow> slice ws (i + 3 * k) (i + 3 * k + 3) \<notin> STOP_CODONS"
  shows "frame_scan sd fr ws n L i orfs = orfs \<and> find_orfs ''ATGAAA'' 1 = []"
proof -
  from assms(3) have "stop_scan ws i = None" by (simp only: stop_scan_None)
  with assms(1,2) have "frame_scan sd fr ws n L i orfs = orfs"
    by (simp add: frame_scan.simps [of _ _ _ _ _ i])
  moreover have "find_orfs ''ATGAAA'' 1 = []" by code_simp
  ultimately show ?thesis by simp
qed

theorem open_orf_abandons_frame_witness:
  "slice ''ATGAAA'' 0 3 = ''ATG'' \<and> stop_scan ''ATGAAA'' 0 = None \<and>
   frame_scan ''+'' 0 ''ATGAAA'' 6 1 0 [] = [] \<and> find_orfs ''ATGAAA'' 1 = []"
proof -
  have a: "0 + 3 \<le> length ''ATGAAA''" by simp
  have b: "slice ''ATGAAA'' 0 (0 + 3) = ''ATG''" by (simp add: slice_def)
  have n: "stop_scan ''ATGAAA'' 0 = None" by code_simp
  then have c: "\<forall>k. 0 + 3 * k + 3 \<le> length ''ATGAAA'' \<longrightarrow>
      slice ''ATGAAA'' (0 + 3 * k) (0 + 3 * k + 3) \<notin> STOP_CODONS"
    by (simp only: stop_scan_None)
  from open_orf_abandons_frame [OF a b c, of "''+''" 0 6 1 "[]"] b n show ?thesis by simp
qed

text \<open>
  C10: \<^verbatim>\<open>min_len\<close> decides which candidates are appended and nothing else: for
  \<open>L1 \<le> L2\<close> the result for \<open>L2\<close> is the result for \<open>L1\<close> without the candidates of
  length below \<open>L2\<close>, in the same order; every scan appends the candidates of its path,
  which does not depend on \<^verbatim>\<open>min_len\<close>, that pass the length test.
\<close>

theorem min_len_only_filters:
  assumes "L1 \<le> L2"
  shows "find_orfs S L2 = filter (\<lambda>c. \<not> length_orf c < L2) (find_orfs S L1) \<and>
         frame_scan sd fr ws n L i orfs =
           orfs @ map (\<lambda>h. candidate sd fr n (fst h) (snd h)) (filter (kept L) (hits ws i))"
proof -
  have "filter (\<lambda>c. \<not> length_orf c < L2) (emitted S L1) = emitted S L2"
    by (simp add: emitted_frames frame_scan_raise_min_len [OF assms])
  then have "find_orfs S L2 = filter (\<lambda>c. \<not> length_orf c < L2) (find_orfs S L1)"
    by (simp add: find_orfs_def filter_sort)
  then show ?thesis by (simp add: frame_scan_hits)
qed

theorem min_len_only_filters_witness:
  "find_orfs ''ATGTAACCCATGAAATAA'' 7 =
     filter (\<lambda>c. \<not> length_orf c < 7) (find_orfs ''ATGTAACCCATGAAATAA'' 1) \<and>
   find_orfs ''ATGTAACCCATGAAATAA'' 7 =
     [\<lparr>strand = ''+'', frame = 1, start = 10, end_orf = 18, length_orf = 9\<rparr>]"
proof -
  have "(1::int) \<le> 7" by simp
  from min_len_only_filters [OF this, of "''ATGTAACCCATGAAATAA''"]
  have "find_orfs ''ATGTAACCCATGAAATAA'' 7 =
     filter (\<lambda>c. \<not> length_orf c < 7) (find_orfs ''ATGTAACCCATGAAATAA'' 1)"
    by blast
  moreover have "find_orfs ''ATGTAACCCATGAAATAA'' 7 =
     [\<lparr>strand = ''+'', frame = 1, start = 10, end_orf = 18, length_orf = 9\<rparr>]"
    by code_simp
  ultimately show ?thesis by blast
qed

end
